theory Spec2Isabelle
  imports Main "HOL-Library.Multiset" "HOL-Library.Sublist"
begin

section \<open>Data model of the text processor\<close>

text \<open>
  The model's reply is parsed JSON: \<^verbatim>\<open>{ idiom, sentiment, words: [{ word, count, isStopWord }] }\<close>.
  A word count is the integer that the parsed JSON number denotes. Strings are lists of
  characters and are compared character by character, as JavaScript compares code units.
\<close>

subsection \<open>Numbers of the language\<close>

text \<open>
  A number of the language is an IEEE-754 double. The sum of two numbers is the exact
  sum rounded to 53 significant bits, a tie going to the even significand, and a sum
  that rounds to \<open>2 ^ 1024\<close> or beyond is an infinity. \<open>excess_bits a\<close> is the number of
  bits by which \<open>a\<close> is longer than 53 bits. The running total of \<^verbatim>\<open>reduce\<close> is such a
  number; each count that is added to it is finite, so no sum is undefined.
\<close>

datatype number = Finite int | PosInfinity | NegInfinity

function excess_bits :: "nat \<Rightarrow> nat" where
  "excess_bits a = (if a < 2 ^ 53 then 0 else Suc (excess_bits (a div 2)))"
  by pat_completeness auto
termination
  by (relation "measure id") auto

declare excess_bits.simps [simp del]

definition roundToDouble :: "int \<Rightarrow> number" where
  "roundToDouble n =
     (let a = nat \<bar>n\<bar>;
          s = excess_bits a;
          q = a div 2 ^ s;
          r = a mod 2 ^ s;
          m = (if 2 ^ s < 2 * r \<or> (2 * r = 2 ^ s \<and> odd q) then Suc q else q) * 2 ^ s
      in if 2 ^ 1024 \<le> m then (if n < 0 then NegInfinity else PosInfinity)
         else Finite (if n < 0 then - int m else int m))"

fun number_add :: "number \<Rightarrow> int \<Rightarrow> number" where
  "number_add (Finite s) c = roundToDouble (s + c)"
| "number_add PosInfinity c = PosInfinity"
| "number_add NegInfinity c = NegInfinity"

record WordStat =
  word :: string
  count :: int
  isStopWord :: bool

datatype aiResult = AiResult (idiom_of: string) (sentiment_of: string) (words: "WordStat list")

record AnalysisSummary =
  idiom :: string
  sentiment :: string
  total_words :: number
  top_5_words :: "WordStat list"
  non_stopwords :: "WordStat list"
  stopwords :: "WordStat list"

text \<open>
  \<^verbatim>\<open>this.output\<close> holds either the summary or the object
  \<^verbatim>\<open>{ error: 'Error retrieving analysis from AI' }\<close>; before the first analysis it is
  \<^verbatim>\<open>null\<close>, as is \<^verbatim>\<open>this.input\<close>.
\<close>

datatype outputObject = Summary AnalysisSummary | ErrorOutput string

record TextProcessor =
  publicAPI :: string
  input :: "string option"
  "output" :: "outputObject option"
  termFoundedInLastAnalysis :: bool

definition new_TextProcessor :: "string \<Rightarrow> TextProcessor" where
  "new_TextProcessor apiKey =
     \<lparr>publicAPI = apiKey, input = None, output = None, termFoundedInLastAnalysis = False\<rparr>"

section \<open>Array operations of the language\<close>

text \<open>
  \<^verbatim>\<open>Array.prototype.sort(comparefn)\<close> is a stable sort: \<^verbatim>\<open>a\<close> is placed before \<^verbatim>\<open>b\<close> when
  \<^verbatim>\<open>comparefn(a, b) < 0\<close>, after it when the value is positive, and elements that compare
  as \<^verbatim>\<open>0\<close> keep their order. The language fixes the result only for a consistent
  comparison function, and there the stable sorted arrangement is unique; it is computed
  here by stable insertion from the right.
\<close>

definition consistent_comparator :: "('a \<Rightarrow> 'a \<Rightarrow> int) \<Rightarrow> bool" where
  "consistent_comparator cmp \<longleftrightarrow>
     (\<forall>a b. (cmp a b < 0) = (0 < cmp b a)) \<and>
     (\<forall>a b c. cmp a b \<le> 0 \<and> cmp b c \<le> 0 \<longrightarrow> cmp a c \<le> 0)"

fun insort_cmp :: "('a \<Rightarrow> 'a \<Rightarrow> int) \<Rightarrow> 'a \<Rightarrow> 'a list \<Rightarrow> 'a list" where
  "insort_cmp cmp x [] = [x]"
| "insort_cmp cmp x (y # ys) =
     (if cmp x y \<le> 0 then x # y # ys else y # insort_cmp cmp x ys)"

definition array_sort :: "('a \<Rightarrow> 'a \<Rightarrow> int) \<Rightarrow> 'a list \<Rightarrow> 'a list" where
  "array_sort cmp xs = foldr (insort_cmp cmp) xs []"

text \<open>\<^verbatim>\<open>slice(start, end)\<close> for indices that are not negative: the elements from
  \<^verbatim>\<open>start\<close> up to, not including, \<^verbatim>\<open>end\<close>, cut at the end of the array.\<close>

definition slice :: "nat \<Rightarrow> nat \<Rightarrow> 'a list \<Rightarrow> 'a list" where
  "slice start end xs = take (end - start) (drop start xs)"

section \<open>The data processing pipeline of inputIAData\<close>

text \<open>
  \<^verbatim>\<open>String.prototype.localeCompare\<close> belongs to the runtime's collation and is a
  parameter of the model. The comparison function is the source's:
  \<^verbatim>\<open>if (b.count !== a.count) return b.count - a.count; return a.word.localeCompare(b.word);\<close>
\<close>

definition sortByCountAndAlpha :: "(string \<Rightarrow> string \<Rightarrow> int) \<Rightarrow> WordStat \<Rightarrow> WordStat \<Rightarrow> int" where
  "sortByCountAndAlpha localeCompare a b =
     (if count b \<noteq> count a then count b - count a else localeCompare (word a) (word b))"

text \<open>
  The body of the \<^verbatim>\<open>try\<close> block after the reply has been parsed: the sum of the counts
  by \<^verbatim>\<open>reduce\<close>, the two \<^verbatim>\<open>filter\<close> calls, the two sorts, the \<^verbatim>\<open>slice(0, 5)\<close> and the
  object that is assigned to \<^verbatim>\<open>this.output\<close>.
\<close>

definition rank :: "(string \<Rightarrow> string \<Rightarrow> int) \<Rightarrow> aiResult \<Rightarrow> AnalysisSummary" where
  "rank localeCompare aiResult =
     (let total = foldl (\<lambda>sum w. number_add sum (count w)) (Finite 0) (words aiResult);
          nonStopWords = filter (\<lambda>w. \<not> isStopWord w) (words aiResult);
          stopWords = filter (\<lambda>w. isStopWord w) (words aiResult);
          nonStopWordsSorted = array_sort (sortByCountAndAlpha localeCompare) nonStopWords;
          stopWordsSorted = array_sort (sortByCountAndAlpha localeCompare) stopWords;
          top5NonStopWords = slice 0 5 nonStopWordsSorted
      in \<lparr>idiom = idiom_of aiResult,
          sentiment = sentiment_of aiResult,
          total_words = total,
          top_5_words = top5NonStopWords,
          non_stopwords = nonStopWordsSorted,
          stopwords = stopWordsSorted\<rparr>)"

text \<open>
  \<^verbatim>\<open>inputIAData\<close>: the request to the model and the parsing of its reply are the
  environment's; \<open>reply\<close> is \<open>None\<close> when the request is rejected, the reply is not
  JSON or lacks the expected fields, that is, whenever the \<^verbatim>\<open>try\<close> block throws.
\<close>

definition inputIAData ::
  "(string \<Rightarrow> string \<Rightarrow> int) \<Rightarrow> aiResult option \<Rightarrow> string \<Rightarrow> TextProcessor \<Rightarrow> TextProcessor" where
  "inputIAData localeCompare reply text p =
     (case reply of
        Some aiResult \<Rightarrow>
          p\<lparr>input := Some text, output := Some (Summary (rank localeCompare aiResult))\<rparr>
      | None \<Rightarrow>
          p\<lparr>input := Some text, output := Some (ErrorOutput ''Error retrieving analysis from AI'')\<rparr>)"

definition outputData :: "TextProcessor \<Rightarrow> outputObject option" where
  "outputData p = output p"

section \<open>A collation for the examples\<close>

text \<open>
  The order of strings by their code units, the comparison a runtime without locale
  data falls back on. It stands for \<^verbatim>\<open>localeCompare\<close> where an example is evaluated.
\<close>

fun compareCodeUnits :: "nat list \<Rightarrow> nat list \<Rightarrow> int" where
  "compareCodeUnits [] [] = 0"
| "compareCodeUnits [] (y # ys) = - 1"
| "compareCodeUnits (x # xs) [] = 1"
| "compareCodeUnits (x # xs) (y # ys) =
     (if x < y then - 1 else if y < x then 1 else compareCodeUnits xs ys)"

definition ordinalCompare :: "string \<Rightarrow> string \<Rightarrow> int" where
  "ordinalCompare a b = compareCodeUnits (map of_char a) (map of_char b)"

section \<open>The last_analysis table and the console\<close>

text \<open>
  The table \<^verbatim>\<open>last_analysis (id INTEGER PRIMARY KEY AUTOINCREMENT, text TEXT NOT NULL,
  created_at DATETIME DEFAULT CURRENT_TIMESTAMP)\<close>. The column \<^verbatim>\<open>created_at\<close> is filled by
  the storage engine and read by no query of the program; rows carry the other two
  columns. \<open>sqlite_sequence\<close> is the largest id the table has ever used, which
  \<^verbatim>\<open>AUTOINCREMENT\<close> never hands out again. The console collects what
  \<^verbatim>\<open>console.log\<close> and \<^verbatim>\<open>console.error\<close> print.
\<close>

record last_analysis_row =
  row_id :: nat
  row_text :: string

datatype logEntry = LogRow "string option" | LogError string string

record world =
  last_analysis :: "last_analysis_row list"
  sqlite_sequence :: nat
  console :: "logEntry list"

text \<open>
  Whether a call of the storage engine completes is the environment's choice: a call
  is made under \<open>NoFault\<close> or under \<open>Fault msg\<close>, in which case the promise is rejected
  with an error whose message is \<open>msg\<close> and the table is left as it was.
\<close>

datatype fault = NoFault | Fault string

definition dbRun_DELETE :: "fault \<Rightarrow> world \<Rightarrow> string + world" where
  "dbRun_DELETE f w =
     (case f of
        Fault msg \<Rightarrow> Inl msg
      | NoFault \<Rightarrow> Inr (w\<lparr>last_analysis := []\<rparr>))"

definition next_id :: "world \<Rightarrow> nat" where
  "next_id w = Suc (fold max (map row_id (last_analysis w)) (sqlite_sequence w))"

definition dbRun_INSERT :: "fault \<Rightarrow> string \<Rightarrow> world \<Rightarrow> string + world" where
  "dbRun_INSERT f text w =
     (case f of
        Fault msg \<Rightarrow> Inl msg
      | NoFault \<Rightarrow>
          Inr (w\<lparr>last_analysis := last_analysis w @ [\<lparr>row_id = next_id w, row_text = text\<rparr>],
                 sqlite_sequence := next_id w\<rparr>))"

text \<open>\<^verbatim>\<open>SELECT text FROM last_analysis ORDER BY id DESC LIMIT 1\<close>: the text of the row
  with the greatest id, or \<^verbatim>\<open>undefined\<close> when the table has no row.\<close>

fun greatest_id :: "last_analysis_row \<Rightarrow> last_analysis_row list \<Rightarrow> last_analysis_row" where
  "greatest_id r [] = r"
| "greatest_id r (x # xs) = greatest_id (if row_id r < row_id x then x else r) xs"

definition dbGet_SELECT :: "fault \<Rightarrow> world \<Rightarrow> string + string option" where
  "dbGet_SELECT f w =
     (case f of
        Fault msg \<Rightarrow> Inl msg
      | NoFault \<Rightarrow>
          (case last_analysis w of
             [] \<Rightarrow> Inr None
           | r # rs \<Rightarrow> Inr (Some (row_text (greatest_id r rs)))))"

section \<open>saveLastAnalysis and searchTerm\<close>

text \<open>
  \<^verbatim>\<open>saveLastAnalysis\<close>: \<^verbatim>\<open>DELETE FROM last_analysis\<close>, then the \<^verbatim>\<open>INSERT\<close>, both inside
  one \<^verbatim>\<open>try\<close>; the \<^verbatim>\<open>catch\<close> prints the message and returns.
\<close>

definition saveLastAnalysis :: "fault \<Rightarrow> fault \<Rightarrow> string \<Rightarrow> world \<Rightarrow> world" where
  "saveLastAnalysis fdelete finsert text w =
     (case dbRun_DELETE fdelete w of
        Inl err \<Rightarrow> w\<lparr>console := console w @ [LogError ''Error saving last analysis:'' err]\<rparr>
      | Inr w1 \<Rightarrow>
          (case dbRun_INSERT finsert text w1 of
             Inl err \<Rightarrow> w1\<lparr>console := console w1 @ [LogError ''Error saving last analysis:'' err]\<rparr>
           | Inr w2 \<Rightarrow> w2))"

text \<open>
  \<^verbatim>\<open>String.prototype.includes(searchString)\<close>: the first position at which the
  characters of \<open>searchString\<close> follow one another is looked for from the start of the
  string; the result says whether there is one.
\<close>

fun string_includes :: "string \<Rightarrow> string \<Rightarrow> bool" where
  "string_includes [] searchString = (searchString = [])"
| "string_includes (c # cs) searchString =
     (take (length searchString) (c # cs) = searchString \<or> string_includes cs searchString)"

text \<open>The match rule in the specification's words: the term occurs as a contiguous
  run of characters of the text.\<close>

definition occurs_in :: "string \<Rightarrow> string \<Rightarrow> bool" where
  "occurs_in term text \<longleftrightarrow> (\<exists>before after. text = before @ term @ after)"

definition searchTerm :: "fault \<Rightarrow> string \<Rightarrow> TextProcessor \<Rightarrow> world \<Rightarrow> TextProcessor \<times> world" where
  "searchTerm f term p w =
     (case dbGet_SELECT f w of
        Inl err \<Rightarrow>
          (p\<lparr>termFoundedInLastAnalysis := False\<rparr>,
           w\<lparr>console := console w @ [LogError ''Error searching term:'' err]\<rparr>)
      | Inr lastAnalysis \<Rightarrow>
          (p\<lparr>termFoundedInLastAnalysis :=
               (case lastAnalysis of None \<Rightarrow> False | Some text \<Rightarrow> string_includes text term)\<rparr>,
           w\<lparr>console := console w @ [LogRow lastAnalysis]\<rparr>))"

section \<open>The two routes\<close>

datatype json =
  JNull | JBool bool | JNumber int | JString string | JArray "json list"
  | JObject "(string \<times> json) list"

text \<open>The keys of an object, in the order in which they are sent; a value that is not
  an object has none.\<close>

fun object_keys :: "json \<Rightarrow> string list" where
  "object_keys (JObject kvs) = map fst kvs"
| "object_keys j = []"

record response =
  status :: nat
  body :: json

definition WordStat_json :: "WordStat \<Rightarrow> json" where
  "WordStat_json w =
     JObject [(''word'', JString (word w)), (''count'', JNumber (count w)),
              (''isStopWord'', JBool (isStopWord w))]"

text \<open>\<^verbatim>\<open>JSON.stringify\<close> writes a number that is not finite as \<^verbatim>\<open>null\<close>.\<close>

fun number_json :: "number \<Rightarrow> json" where
  "number_json (Finite n) = JNumber n"
| "number_json PosInfinity = JNull"
| "number_json NegInfinity = JNull"

fun output_json :: "outputObject option \<Rightarrow> json" where
  "output_json None = JNull"
| "output_json (Some (ErrorOutput msg)) = JObject [(''error'', JString msg)]"
| "output_json (Some (Summary s)) =
     JObject [(''idiom'', JString (idiom s)),
              (''sentiment'', JString (sentiment s)),
              (''total_words'', number_json (total_words s)),
              (''top_5_words'', JArray (map WordStat_json (top_5_words s))),
              (''non_stopwords'', JArray (map WordStat_json (non_stopwords s))),
              (''stopwords'', JArray (map WordStat_json (stopwords s)))]"

text \<open>\<^verbatim>\<open>String.prototype.trim\<close> on characters below 256: tab, line feed, vertical tab,
  form feed, carriage return, space and the no-break space are removed at both ends.\<close>

definition isWhiteSpace :: "char \<Rightarrow> bool" where
  "isWhiteSpace c \<longleftrightarrow> (of_char c :: nat) \<in> set [9, 10, 11, 12, 13, 32, 160]"

definition trim :: "string \<Rightarrow> string" where
  "trim s = rev (dropWhile isWhiteSpace (rev (dropWhile isWhiteSpace s)))"

text \<open>
  \<^verbatim>\<open>POST /analyze-text\<close>. \<open>text\<close> is \<open>None\<close> when the body has no \<^verbatim>\<open>text\<close>. The
  handler's own \<^verbatim>\<open>catch\<close> (status 500) is not reached: \<^verbatim>\<open>inputIAData\<close> and
  \<^verbatim>\<open>saveLastAnalysis\<close> catch every error inside themselves.
\<close>

definition analyze_text_route ::
  "string \<Rightarrow> (string \<Rightarrow> string \<Rightarrow> int) \<Rightarrow> aiResult option \<Rightarrow> fault \<Rightarrow> fault \<Rightarrow>
   string option \<Rightarrow> world \<Rightarrow> response \<times> world" where
  "analyze_text_route apiKey localeCompare reply fdelete finsert text w =
     (case text of
        None \<Rightarrow> (\<lparr>status = 400, body = JObject [(''error'', JString ''Text is required.'')]\<rparr>, w)
      | Some t \<Rightarrow>
          if t = [] \<or> trim t = []
          then (\<lparr>status = 400, body = JObject [(''error'', JString ''Text is required.'')]\<rparr>, w)
          else
            (let processor = inputIAData localeCompare reply t (new_TextProcessor apiKey);
                 w1 = saveLastAnalysis fdelete finsert t w
             in (\<lparr>status = 200, body = output_json (outputData processor)\<rparr>, w1)))"

text \<open>\<^verbatim>\<open>GET /search-term\<close>. \<open>term\<close> is \<open>None\<close> when the query has no \<^verbatim>\<open>term\<close>.\<close>

definition search_term_route ::
  "string \<Rightarrow> fault \<Rightarrow> string option \<Rightarrow> world \<Rightarrow> response \<times> world" where
  "search_term_route apiKey f term w =
     (case term of
        None \<Rightarrow> (\<lparr>status = 400, body = JObject [(''error'', JString ''Term is required'')]\<rparr>, w)
      | Some t \<Rightarrow>
          if t = []
          then (\<lparr>status = 400, body = JObject [(''error'', JString ''Term is required'')]\<rparr>, w)
          else
            (case searchTerm f t (new_TextProcessor apiKey) w of
               (processor, w1) \<Rightarrow>
                 (\<lparr>status = 200,
                   body = JObject [(''term'', JString t),
                                   (''termFoundedInLastAnalysis'',
                                    JBool (termFoundedInLastAnalysis processor))]\<rparr>, w1)))"

section \<open>Properties of the ranking\<close>

lemma excess_bits_small: "a < 2 ^ 53 \<Longrightarrow> excess_bits a = 0"
  by (simp add: excess_bits.simps [of a])

lemma excess_bits_one: "2 ^ 53 \<le> a \<Longrightarrow> a < 2 ^ 54 \<Longrightarrow> excess_bits a = Suc 0"
proof -
  assume lo: "2 ^ 53 \<le> a" and hi: "a < 2 ^ 54"
  from hi have "a div 2 < 2 ^ 53" by simp
  then have "excess_bits (a div 2) = 0" by (rule excess_bits_small)
  with lo show ?thesis by (simp add: excess_bits.simps [of a])
qed

lemma excess_bits_range:
  "2 ^ (53 + k) \<le> a \<Longrightarrow> a < 2 ^ (54 + k) \<Longrightarrow> excess_bits a = Suc k"
proof (induction k arbitrary: a)
  case 0
  then show ?case using excess_bits_one [of a] by simp
next
  case (Suc k)
  have p1: "(2::nat) ^ (53 + Suc k) = 2 * 2 ^ (53 + k)" by (simp only: add_Suc_right power_Suc)
  have p2: "(2::nat) ^ (54 + Suc k) = 2 * 2 ^ (54 + k)" by (simp only: add_Suc_right power_Suc)
  have lo: "2 ^ (53 + k) \<le> a div 2" using Suc.prems(1) unfolding p1 by linarith
  have hi: "a div 2 < 2 ^ (54 + k)" using Suc.prems(2) unfolding p2 by linarith
  have big: "\<not> a < 2 ^ 53"
  proof -
    have "(2::nat) ^ 53 \<le> 2 ^ (53 + Suc k)" by (rule power_increasing) simp_all
    with Suc.prems(1) show ?thesis by linarith
  qed
  from Suc.IH [OF lo hi] big show ?case by (simp add: excess_bits.simps [of a])
qed

lemma roundToDouble_tie_to_even:
  "roundToDouble 9007199254740995 = Finite 9007199254740996"
proof -
  have s: "excess_bits 9007199254740995 = Suc 0" by (rule excess_bits_one) simp_all
  show ?thesis by (simp add: roundToDouble_def Let_def s)
qed

lemma roundToDouble_overflow: "roundToDouble (2 ^ 1024 - 2 ^ 970) = PosInfinity"
proof -
  have s: "excess_bits (2 ^ 1024 - 2 ^ 970) = Suc 970" by (rule excess_bits_range) simp_all
  show ?thesis using s by (simp add: roundToDouble_def Let_def)
qed

lemma roundToDouble_exact:
  assumes "\<bar>n\<bar> \<le> 2 ^ 53"
  shows "roundToDouble n = Finite n"
proof (cases "nat \<bar>n\<bar> < 2 ^ 53")
  case True
  have "(2::nat) ^ 53 < 2 ^ 1024" by simp
  with True have "\<not> 2 ^ 1024 \<le> nat \<bar>n\<bar>" by linarith
  with True show ?thesis
    by (simp add: roundToDouble_def excess_bits_small Let_def)
next
  case False
  with assms have "\<bar>n\<bar> = 9007199254740992" by simp
  then have n: "n = 9007199254740992 \<or> n = - 9007199254740992" by arith
  have s: "excess_bits 9007199254740992 = Suc 0" by (rule excess_bits_one) simp_all
  from n show ?thesis
  proof
    assume "n = 9007199254740992"
    then show ?thesis by (simp add: roundToDouble_def Let_def s)
  next
    assume "n = - 9007199254740992"
    then show ?thesis by (simp add: roundToDouble_def Let_def s)
  qed
qed

lemma foldl_count_sum:
  "0 \<le> a \<Longrightarrow> \<forall>w\<in>set ws. 0 \<le> count w \<Longrightarrow> a + sum_list (map count ws) \<le> 2 ^ 53 \<Longrightarrow>
   foldl (\<lambda>sum w. number_add sum (count w)) (Finite a) ws = Finite (a + sum_list (map count ws))"
proof (induction ws arbitrary: a)
  case Nil
  show ?case by simp
next
  case (Cons w ws)
  have rest: "0 \<le> sum_list (map count ws)"
    using Cons.prems(2) by (intro sum_list_nonneg) auto
  have cw: "0 \<le> count w" using Cons.prems(2) by simp
  have "\<bar>a + count w\<bar> \<le> 2 ^ 53" using Cons.prems(1,3) rest cw by simp
  then have step: "number_add (Finite a) (count w) = Finite (a + count w)"
    by (simp add: roundToDouble_exact)
  have "foldl (\<lambda>sum w. number_add sum (count w)) (Finite (a + count w)) ws =
          Finite (a + count w + sum_list (map count ws))"
  proof (rule Cons.IH)
    show "0 \<le> a + count w" using Cons.prems(1) cw by simp
    show "\<forall>w\<in>set ws. 0 \<le> count w" using Cons.prems(2) by simp
    show "a + count w + sum_list (map count ws) \<le> 2 ^ 53" using Cons.prems(3) by simp
  qed
  with step show ?case by (simp add: add.assoc)
qed

lemma mset_insort_cmp: "mset (insort_cmp cmp x xs) = add_mset x (mset xs)"
  by (induction xs) simp_all

lemma mset_array_sort: "mset (array_sort cmp xs) = mset xs"
  by (induction xs) (simp_all add: array_sort_def mset_insort_cmp)

lemma set_array_sort: "set (array_sort cmp xs) = set xs"
  using mset_array_sort [of cmp xs] by (metis set_mset_mset)

lemma length_array_sort: "length (array_sort cmp xs) = length xs"
  using mset_array_sort [of cmp xs] by (metis size_mset)

lemma comparator_refl: "consistent_comparator cmp \<Longrightarrow> cmp a a = 0"
  unfolding consistent_comparator_def by (metis less_le not_less)

lemma comparator_flip: "consistent_comparator cmp \<Longrightarrow> 0 < cmp a b \<Longrightarrow> cmp b a < 0"
  unfolding consistent_comparator_def by simp

lemma comparator_sym: "consistent_comparator cmp \<Longrightarrow> cmp a b = 0 \<Longrightarrow> cmp b a = 0"
  unfolding consistent_comparator_def by (metis less_le not_less order_refl linorder_neqE_linordered_idom)

lemma comparator_trans:
  "consistent_comparator cmp \<Longrightarrow> cmp a b \<le> 0 \<Longrightarrow> cmp b c \<le> 0 \<Longrightarrow> cmp a c \<le> 0"
  unfolding consistent_comparator_def by blast

lemma comparator_equiv_trans:
  assumes c: "consistent_comparator cmp" and ab: "cmp a b = 0" and bc: "cmp b c = 0"
  shows "cmp a c = 0"
proof -
  have "cmp a c \<le> 0" using comparator_trans [OF c, of a b c] ab bc by simp
  moreover have "cmp c a \<le> 0"
    using comparator_trans [OF c, of c b a] comparator_sym [OF c ab] comparator_sym [OF c bc]
    by simp
  ultimately show ?thesis
    using c unfolding consistent_comparator_def by (metis less_le not_less)
qed

lemma set_insort_cmp: "set (insort_cmp cmp x xs) = insert x (set xs)"
  by (induction xs) auto

lemma sorted_insort_cmp:
  assumes c: "consistent_comparator cmp"
  shows "sorted_wrt (\<lambda>a b. cmp a b \<le> 0) xs \<Longrightarrow>
         sorted_wrt (\<lambda>a b. cmp a b \<le> 0) (insort_cmp cmp x xs)"
proof (induction xs)
  case Nil
  show ?case by simp
next
  case (Cons y ys)
  show ?case
  proof (cases "cmp x y \<le> 0")
    case True
    then have "\<forall>z\<in>set ys. cmp x z \<le> 0"
      using Cons.prems comparator_trans [OF c, of x y] by auto
    with True Cons.prems show ?thesis by simp
  next
    case False
    then have "cmp y x \<le> 0" using comparator_flip [OF c, of x y] by simp
    with False Cons show ?thesis by (auto simp: set_insort_cmp)
  qed
qed

lemma sorted_array_sort:
  "consistent_comparator cmp \<Longrightarrow> sorted_wrt (\<lambda>a b. cmp a b \<le> 0) (array_sort cmp xs)"
  by (induction xs) (simp_all add: array_sort_def sorted_insort_cmp)

lemma stable_insort_cmp:
  assumes c: "consistent_comparator cmp"
  shows "filter (\<lambda>y. cmp k y = 0) (insort_cmp cmp x xs) =
         (if cmp k x = 0 then x # filter (\<lambda>y. cmp k y = 0) xs
          else filter (\<lambda>y. cmp k y = 0) xs)"
proof (induction xs)
  case Nil
  show ?case by simp
next
  case (Cons y ys)
  show ?case
  proof (cases "cmp x y \<le> 0")
    case True
    then show ?thesis by simp
  next
    case False
    have "\<not> (cmp k x = 0 \<and> cmp k y = 0)"
    proof
      assume h: "cmp k x = 0 \<and> cmp k y = 0"
      then have "cmp x y = 0"
        using comparator_equiv_trans [OF c, of x k y] comparator_sym [OF c, of k x] by simp
      with False show False by simp
    qed
    with False Cons show ?thesis by auto
  qed
qed

lemma stable_array_sort:
  "consistent_comparator cmp \<Longrightarrow>
   filter (\<lambda>y. cmp k y = 0) (array_sort cmp xs) = filter (\<lambda>y. cmp k y = 0) xs"
  by (induction xs) (simp_all add: array_sort_def stable_insort_cmp)

text \<open>
  For a consistent comparison there is one stable sorted arrangement of an array, so
  every sorting procedure that meets the language's requirement returns what
  \<open>array_sort\<close> returns.
\<close>

lemma sorted_stable_unique:
  assumes c: "consistent_comparator cmp"
  shows "sorted_wrt (\<lambda>a b. cmp a b \<le> 0) ys \<Longrightarrow> sorted_wrt (\<lambda>a b. cmp a b \<le> 0) zs \<Longrightarrow>
         (\<And>k. filter (\<lambda>y. cmp k y = 0) ys = filter (\<lambda>y. cmp k y = 0) zs) \<Longrightarrow> ys = zs"
proof (induction ys arbitrary: zs)
  case Nil
  show ?case
  proof (cases zs)
    case Nil
    then show ?thesis by simp
  next
    case (Cons z zs')
    from Nil.prems(3) [of z] Cons comparator_refl [OF c, of z] show ?thesis by simp
  qed
next
  case (Cons y ys')
  have yy: "cmp y y = 0" by (rule comparator_refl [OF c])
  from Cons.prems(3) [of y] yy
  have fy: "filter (\<lambda>x. cmp y x = 0) zs = y # filter (\<lambda>x. cmp y x = 0) ys'" by simp
  then have "y \<in> set (filter (\<lambda>x. cmp y x = 0) zs)" by simp
  then have yin: "y \<in> set zs" by simp
  then obtain z zs' where zs: "zs = z # zs'" by (cases zs) auto
  have zz: "cmp z z = 0" by (rule comparator_refl [OF c])
  from Cons.prems(3) [of z] zs zz
  have "z \<in> set (filter (\<lambda>x. cmp z x = 0) (y # ys'))" by simp
  then have zin: "z \<in> set (y # ys')" unfolding set_filter by blast
  have yz: "cmp y z \<le> 0" using zin Cons.prems(1) yy by auto
  have zy: "cmp z y \<le> 0" using yin Cons.prems(2) zs zz by auto
  have e: "cmp y z = 0"
  proof (rule ccontr)
    assume "cmp y z \<noteq> 0"
    with yz have "cmp y z < 0" by simp
    then have "0 < cmp z y" using c unfolding consistent_comparator_def by blast
    with zy show False by simp
  qed
  with fy zs have h: "z = y" by simp
  have "ys' = zs'"
  proof (rule Cons.IH)
    show "sorted_wrt (\<lambda>a b. cmp a b \<le> 0) ys'" using Cons.prems(1) by simp
    show "sorted_wrt (\<lambda>a b. cmp a b \<le> 0) zs'" using Cons.prems(2) zs by simp
    show "filter (\<lambda>x. cmp k x = 0) ys' = filter (\<lambda>x. cmp k x = 0) zs'" for k
      using Cons.prems(3) [of k] zs h by (simp split: if_splits)
  qed
  with zs h show ?case by simp
qed

lemma array_sort_unique:
  assumes c: "consistent_comparator cmp"
    and s: "sorted_wrt (\<lambda>a b. cmp a b \<le> 0) ys"
    and st: "\<And>k. filter (\<lambda>y. cmp k y = 0) ys = filter (\<lambda>y. cmp k y = 0) xs"
  shows "ys = array_sort cmp xs"
proof (rule sorted_stable_unique [OF c s])
  show "sorted_wrt (\<lambda>a b. cmp a b \<le> 0) (array_sort cmp xs)"
    by (rule sorted_array_sort [OF c])
  show "filter (\<lambda>y. cmp k y = 0) ys = filter (\<lambda>y. cmp k y = 0) (array_sort cmp xs)" for k
    using st [of k] stable_array_sort [OF c, of k xs] by simp
qed

lemma consistent_sortByCountAndAlpha:
  assumes c: "consistent_comparator localeCompare"
  shows "consistent_comparator (sortByCountAndAlpha localeCompare)"
proof -
  have flip: "\<And>u v. (localeCompare u v < 0) = (0 < localeCompare v u)"
    using c unfolding consistent_comparator_def by blast
  have tr: "\<And>u v w. localeCompare u v \<le> 0 \<Longrightarrow> localeCompare v w \<le> 0 \<Longrightarrow> localeCompare u w \<le> 0"
    using comparator_trans [OF c] by blast
  have "(sortByCountAndAlpha localeCompare a b < 0) = (0 < sortByCountAndAlpha localeCompare b a)" for a b
    using flip [of "word a" "word b"] by (auto simp: sortByCountAndAlpha_def)
  moreover have "sortByCountAndAlpha localeCompare a b \<le> 0 \<and> sortByCountAndAlpha localeCompare b d \<le> 0
      \<longrightarrow> sortByCountAndAlpha localeCompare a d \<le> 0" for a b d
    using tr [of "word a" "word b" "word d"]
    by (auto simp: sortByCountAndAlpha_def split: if_splits)
  ultimately show ?thesis unfolding consistent_comparator_def by blast
qed

lemma compareCodeUnits_flip: "(compareCodeUnits a b < 0) = (0 < compareCodeUnits b a)"
  by (induction a b rule: compareCodeUnits.induct) simp_all

lemma compareCodeUnits_trans:
  "compareCodeUnits a b \<le> 0 \<Longrightarrow> compareCodeUnits b c \<le> 0 \<Longrightarrow> compareCodeUnits a c \<le> 0"
proof (induction a b arbitrary: c rule: compareCodeUnits.induct)
  case 1
  then show ?case by simp
next
  case (2 y ys)
  then show ?case by (cases c) simp_all
next
  case (3 x xs)
  then show ?case by simp
next
  case (4 x xs y ys)
  show ?case
  proof (cases c)
    case Nil
    with "4.prems" show ?thesis by simp
  next
    case (Cons z zs)
    show ?thesis
    proof (cases "x < y")
      case True
      with "4.prems" Cons show ?thesis by (simp split: if_splits)
    next
      case False
      with "4.prems" have xy: "x = y" and r: "compareCodeUnits xs ys \<le> 0"
        by (simp_all split: if_splits)
      show ?thesis
      proof (cases "y < z")
        case True
        with xy Cons show ?thesis by simp
      next
        case False
        with "4.prems" Cons have yz: "y = z" and r2: "compareCodeUnits ys zs \<le> 0"
          by (simp_all split: if_splits)
        from "4.IH" [OF _ _ r r2] xy yz Cons show ?thesis by simp
      qed
    qed
  qed
qed

lemma consistent_ordinalCompare: "consistent_comparator ordinalCompare"
  unfolding consistent_comparator_def ordinalCompare_def
  using compareCodeUnits_flip compareCodeUnits_trans by blast


lemma rank_non_stopwords:
  "non_stopwords (rank localeCompare ai) =
     array_sort (sortByCountAndAlpha localeCompare) (filter (\<lambda>w. \<not> isStopWord w) (words ai))"
  by (simp add: rank_def Let_def)

lemma rank_stopwords:
  "stopwords (rank localeCompare ai) =
     array_sort (sortByCountAndAlpha localeCompare) (filter (\<lambda>w. isStopWord w) (words ai))"
  by (simp add: rank_def Let_def)

lemma rank_top_5_words:
  "top_5_words (rank localeCompare ai) = take 5 (non_stopwords (rank localeCompare ai))"
  by (simp add: rank_def Let_def slice_def)

lemma rank_total_words:
  "total_words (rank localeCompare ai) =
     foldl (\<lambda>sum w. number_add sum (count w)) (Finite 0) (words ai)"
  by (simp add: rank_def Let_def)

lemma sortByCountAndAlpha_le:
  "(sortByCountAndAlpha localeCompare a b \<le> 0) =
     (count b < count a \<or> (count a = count b \<and> localeCompare (word a) (word b) \<le> 0))"
  by (auto simp: sortByCountAndAlpha_def)

lemma sorted_by_count_and_alpha:
  assumes "consistent_comparator localeCompare"
  shows "sorted_wrt (\<lambda>a b. count b < count a \<or>
                      (count a = count b \<and> localeCompare (word a) (word b) \<le> 0))
           (array_sort (sortByCountAndAlpha localeCompare) xs)"
  using sorted_array_sort [OF consistent_sortByCountAndAlpha [OF assms], of xs]
  by (simp add: sortByCountAndAlpha_le)

lemma stable_by_count_and_word:
  assumes c: "consistent_comparator localeCompare"
  shows "filter (\<lambda>y. count y = n \<and> word y = s) (array_sort (sortByCountAndAlpha localeCompare) xs) =
         filter (\<lambda>y. count y = n \<and> word y = s) xs"
proof -
  let ?cmp = "sortByCountAndAlpha localeCompare"
  let ?k = "\<lparr>word = s, count = n, isStopWord = False\<rparr>"
  let ?P = "\<lambda>y. count y = n \<and> word y = s"
  have eq: "?P y \<Longrightarrow> ?cmp ?k y = 0" for y
    using comparator_refl [OF c, of s] by (auto simp: sortByCountAndAlpha_def)
  have narrow: "filter ?P zs = filter ?P (filter (\<lambda>y. ?cmp ?k y = 0) zs)" for zs
    using eq by (auto intro: filter_cong)
  have "filter ?P (array_sort ?cmp xs) = filter ?P (filter (\<lambda>y. ?cmp ?k y = 0) (array_sort ?cmp xs))"
    by (rule narrow)
  also have "\<dots> = filter ?P (filter (\<lambda>y. ?cmp ?k y = 0) xs)"
    using stable_array_sort [OF consistent_sortByCountAndAlpha [OF c], of ?k xs] by simp
  also have "\<dots> = filter ?P xs"
    by (rule narrow [symmetric])
  finally show ?thesis .
qed

text \<open>
  Claim C1. For a collation that is a consistent comparison, the ranking sorts the
  non-stopwords and the stopwords each on their own: larger counts come first, equal
  counts are ordered by the collation of the words, each sorted list is a rearrangement
  of its partition, and entries with the same count and word stay in their input order.
\<close>

theorem rank_sorts_each_partition:
  assumes "consistent_comparator localeCompare"
  shows "sorted_wrt (\<lambda>a b. count b < count a \<or>
                      (count a = count b \<and> localeCompare (word a) (word b) \<le> 0))
           (non_stopwords (rank localeCompare ai)) \<and>
         sorted_wrt (\<lambda>a b. count b < count a \<or>
                      (count a = count b \<and> localeCompare (word a) (word b) \<le> 0))
           (stopwords (rank localeCompare ai)) \<and>
         mset (non_stopwords (rank localeCompare ai)) =
           mset (filter (\<lambda>w. \<not> isStopWord w) (words ai)) \<and>
         mset (stopwords (rank localeCompare ai)) =
           mset (filter (\<lambda>w. isStopWord w) (words ai)) \<and>
         filter (\<lambda>y. count y = n \<and> word y = s) (non_stopwords (rank localeCompare ai)) =
           filter (\<lambda>y. count y = n \<and> word y = s) (filter (\<lambda>w. \<not> isStopWord w) (words ai)) \<and>
         filter (\<lambda>y. count y = n \<and> word y = s) (stopwords (rank localeCompare ai)) =
           filter (\<lambda>y. count y = n \<and> word y = s) (filter (\<lambda>w. isStopWord w) (words ai))"
  unfolding rank_non_stopwords rank_stopwords
  using sorted_by_count_and_alpha [OF assms] stable_by_count_and_word [OF assms]
  by (simp add: mset_array_sort)

theorem rank_sorts_each_partition_witness:
  "consistent_comparator ordinalCompare \<and>
   non_stopwords (rank ordinalCompare (AiResult ''English'' ''neutral''
     [\<lparr>word = ''the'', count = 5, isStopWord = True\<rparr>,
      \<lparr>word = ''cat'', count = 3, isStopWord = False\<rparr>,
      \<lparr>word = ''dog'', count = 3, isStopWord = False\<rparr>])) =
     [\<lparr>word = ''cat'', count = 3, isStopWord = False\<rparr>,
      \<lparr>word = ''dog'', count = 3, isStopWord = False\<rparr>] \<and>
   sorted_wrt (\<lambda>a b. count b < count a \<or>
                (count a = count b \<and> ordinalCompare (word a) (word b) \<le> 0))
     [\<lparr>word = ''cat'', count = 3, isStopWord = False\<rparr>,
      \<lparr>word = ''dog'', count = 3, isStopWord = False\<rparr>]"
proof -
  let ?ai = "AiResult ''English'' ''neutral''
     [\<lparr>word = ''the'', count = 5, isStopWord = True\<rparr>,
      \<lparr>word = ''cat'', count = 3, isStopWord = False\<rparr>,
      \<lparr>word = ''dog'', count = 3, isStopWord = False\<rparr>]"
  have v: "non_stopwords (rank ordinalCompare ?ai) =
     [\<lparr>word = ''cat'', count = 3, isStopWord = False\<rparr>,
      \<lparr>word = ''dog'', count = 3, isStopWord = False\<rparr>]"
    by (simp add: rank_def array_sort_def sortByCountAndAlpha_def slice_def ordinalCompare_def Let_def)
  from rank_sorts_each_partition [OF consistent_ordinalCompare, of ?ai]
  have "sorted_wrt (\<lambda>a b. count b < count a \<or>
                (count a = count b \<and> ordinalCompare (word a) (word b) \<le> 0))
         (non_stopwords (rank ordinalCompare ?ai))"
    by blast
  with v consistent_ordinalCompare show ?thesis by simp
qed

text \<open>
  Claim C2, as stated, fails: the total is added up in double-precision numbers, and
  for the counts \<open>9007199254740991\<close> and \<open>2\<close> it is \<open>9007199254740992\<close>, while the sum
  of the counts is \<open>9007199254740993\<close>.
\<close>

theorem total_words_rounding_counterexample:
  "total_words (rank ordinalCompare (AiResult ''English'' ''neutral''
     [\<lparr>word = ''cat'', count = 9007199254740991, isStopWord = False\<rparr>,
      \<lparr>word = ''the'', count = 2, isStopWord = True\<rparr>])) = Finite 9007199254740992 \<and>
   sum_list (map count
     [\<lparr>word = ''cat'', count = 9007199254740991, isStopWord = False\<rparr>,
      \<lparr>word = ''the'', count = 2, isStopWord = True\<rparr>]) = 9007199254740993"
proof -
  have first: "roundToDouble 9007199254740991 = Finite 9007199254740991"
    by (rule roundToDouble_exact) simp
  have s: "excess_bits 9007199254740993 = Suc 0"
    by (rule excess_bits_one) simp_all
  have second: "roundToDouble 9007199254740993 = Finite 9007199254740992"
    by (simp add: roundToDouble_def Let_def s)
  show ?thesis
    by (simp add: rank_total_words first second)
qed

text \<open>
  Claim C2, amended. When no count is negative and the counts sum to at most \<open>2 ^ 53\<close>,
  \<open>total_words\<close> is the sum of \<open>count\<close> over the whole input, taken before the
  partitioning: the counts of the stopwords and of the other words both enter it.
\<close>

theorem total_words_is_sum_in_safe_range:
  assumes "\<forall>w\<in>set (words ai). 0 \<le> count w"
    and "sum_list (map count (words ai)) \<le> 2 ^ 53"
  shows "total_words (rank localeCompare ai) = Finite (sum_list (map count (words ai))) \<and>
         total_words (rank localeCompare ai) =
           Finite (sum_list (map count (filter (\<lambda>w. isStopWord w) (words ai))) +
                   sum_list (map count (filter (\<lambda>w. \<not> isStopWord w) (words ai))))"
proof -
  have split: "sum_list (map count xs) =
          sum_list (map count (filter (\<lambda>w. isStopWord w) xs)) +
          sum_list (map count (filter (\<lambda>w. \<not> isStopWord w) xs))" for xs :: "WordStat list"
    by (induction xs) simp_all
  have total: "total_words (rank localeCompare ai) = Finite (sum_list (map count (words ai)))"
    unfolding rank_total_words
    using foldl_count_sum [of 0 "words ai"] assms by simp
  show ?thesis
  proof (rule conjI)
    show "total_words (rank localeCompare ai) = Finite (sum_list (map count (words ai)))"
      by (rule total)
    show "total_words (rank localeCompare ai) =
           Finite (sum_list (map count (filter (\<lambda>w. isStopWord w) (words ai))) +
                   sum_list (map count (filter (\<lambda>w. \<not> isStopWord w) (words ai))))"
      unfolding total using split [of "words ai"] by (simp only:)
  qed
qed

theorem total_words_is_sum_in_safe_range_witness:
  "list_all (\<lambda>w. 0 \<le> count w)
              [\<lparr>word = ''the'', count = 5, isStopWord = True\<rparr>,
               \<lparr>word = ''cat'', count = 3, isStopWord = False\<rparr>,
               \<lparr>word = ''dog'', count = 3, isStopWord = False\<rparr>] \<and>
   sum_list (map count [\<lparr>word = ''the'', count = 5, isStopWord = True\<rparr>,
               \<lparr>word = ''cat'', count = 3, isStopWord = False\<rparr>,
               \<lparr>word = ''dog'', count = 3, isStopWord = False\<rparr>]) \<le> 2 ^ 53 \<and>
   total_words (rank ordinalCompare (AiResult ''English'' ''neutral''
     [\<lparr>word = ''the'', count = 5, isStopWord = True\<rparr>,
      \<lparr>word = ''cat'', count = 3, isStopWord = False\<rparr>,
      \<lparr>word = ''dog'', count = 3, isStopWord = False\<rparr>])) = Finite 11"
proof -
  let ?ws = "[\<lparr>word = ''the'', count = 5, isStopWord = True\<rparr>,
              \<lparr>word = ''cat'', count = 3, isStopWord = False\<rparr>,
              \<lparr>word = ''dog'', count = 3, isStopWord = False\<rparr>]"
  have h1: "\<forall>w\<in>set (words (AiResult ''English'' ''neutral'' ?ws)). 0 \<le> count w" by simp
  have h2: "sum_list (map count (words (AiResult ''English'' ''neutral'' ?ws))) \<le> 2 ^ 53" by simp
  from total_words_is_sum_in_safe_range [OF h1 h2, of ordinalCompare]
  have "total_words (rank ordinalCompare (AiResult ''English'' ''neutral'' ?ws)) = Finite 11"
    by simp
  with h1 h2 show ?thesis by simp
qed

text \<open>
  Claim C3. As multisets, \<open>non_stopwords\<close> and \<open>stopwords\<close> together are the input;
  \<open>non_stopwords\<close> holds exactly the entries whose flag is false and \<open>stopwords\<close>
  exactly those whose flag is true, every entry unchanged, and the two share no entry.
\<close>

theorem partition_by_isStopWord:
  "mset (non_stopwords (rank localeCompare ai)) + mset (stopwords (rank localeCompare ai)) =
     mset (words ai) \<and>
   mset (non_stopwords (rank localeCompare ai)) =
     filter_mset (\<lambda>w. \<not> isStopWord w) (mset (words ai)) \<and>
   mset (stopwords (rank localeCompare ai)) =
     filter_mset (\<lambda>w. isStopWord w) (mset (words ai)) \<and>
   mset (non_stopwords (rank localeCompare ai)) \<inter># mset (stopwords (rank localeCompare ai)) = {#} \<and>
   set (non_stopwords (rank localeCompare ai)) \<inter> set (stopwords (rank localeCompare ai)) = {}"
proof -
  have a: "mset (non_stopwords (rank localeCompare ai)) =
     filter_mset (\<lambda>w. \<not> isStopWord w) (mset (words ai))"
    by (simp add: rank_non_stopwords mset_array_sort)
  have b: "mset (stopwords (rank localeCompare ai)) =
     filter_mset (\<lambda>w. isStopWord w) (mset (words ai))"
    by (simp add: rank_stopwords mset_array_sort)
  have c: "set (non_stopwords (rank localeCompare ai)) \<inter> set (stopwords (rank localeCompare ai)) = {}"
    by (auto simp: rank_non_stopwords rank_stopwords set_array_sort)
  have d: "mset (non_stopwords (rank localeCompare ai)) \<inter># mset (stopwords (rank localeCompare ai)) = {#}"
    using c by (simp add: disjunct_not_in set_eq_iff disjoint_iff)
  have e: "mset (non_stopwords (rank localeCompare ai)) + mset (stopwords (rank localeCompare ai)) =
     mset (words ai)"
    unfolding a b by (induction "words ai") (simp_all add: multiset_eq_iff)
  from a b c d e show ?thesis by blast
qed

text \<open>
  Claim C4. \<open>top_5_words\<close> is the first \<open>min 5 n\<close> elements of the sorted
  \<open>non_stopwords\<close>, where \<open>n\<close> is their number: a prefix of at most five elements, and
  all of them, with nothing added, when there are fewer than five.
\<close>

theorem top_5_words_prefix:
  "top_5_words (rank localeCompare ai) =
     take (min 5 (length (non_stopwords (rank localeCompare ai))))
       (non_stopwords (rank localeCompare ai)) \<and>
   prefix (top_5_words (rank localeCompare ai)) (non_stopwords (rank localeCompare ai)) \<and>
   length (top_5_words (rank localeCompare ai)) =
     min 5 (length (non_stopwords (rank localeCompare ai))) \<and>
   length (top_5_words (rank localeCompare ai)) \<le> 5 \<and>
   (length (non_stopwords (rank localeCompare ai)) < 5 \<longrightarrow>
      top_5_words (rank localeCompare ai) = non_stopwords (rank localeCompare ai))"
  by (simp add: rank_top_5_words take_is_prefix min_def)

theorem top_5_words_prefix_witness:
  "length (non_stopwords (rank ordinalCompare (AiResult ''English'' ''neutral''
      [\<lparr>word = ''a'', count = 1, isStopWord = False\<rparr>,
       \<lparr>word = ''b'', count = 1, isStopWord = False\<rparr>]))) < 5 \<and>
   top_5_words (rank ordinalCompare (AiResult ''English'' ''neutral''
      [\<lparr>word = ''a'', count = 1, isStopWord = False\<rparr>,
       \<lparr>word = ''b'', count = 1, isStopWord = False\<rparr>])) =
     [\<lparr>word = ''a'', count = 1, isStopWord = False\<rparr>,
      \<lparr>word = ''b'', count = 1, isStopWord = False\<rparr>]"
proof -
  let ?ai = "AiResult ''English'' ''neutral''
      [\<lparr>word = ''a'', count = 1, isStopWord = False\<rparr>,
       \<lparr>word = ''b'', count = 1, isStopWord = False\<rparr>]"
  have v: "non_stopwords (rank ordinalCompare ?ai) =
     [\<lparr>word = ''a'', count = 1, isStopWord = False\<rparr>,
      \<lparr>word = ''b'', count = 1, isStopWord = False\<rparr>]"
    by (simp add: rank_def array_sort_def sortByCountAndAlpha_def slice_def ordinalCompare_def Let_def)
  then have l: "length (non_stopwords (rank ordinalCompare ?ai)) < 5" by simp
  with top_5_words_prefix [of ordinalCompare ?ai]
  have "top_5_words (rank ordinalCompare ?ai) = non_stopwords (rank ordinalCompare ?ai)"
    by blast
  with v l show ?thesis by simp
qed

text \<open>
  Claim C5. When the model's reply is well formed, \<open>inputIAData\<close> stores the summary
  and never the error object, whatever the words are, and changes nothing else of the
  processor; on the empty sequence of words the summary has \<open>total_words = 0\<close> and three
  empty lists.
\<close>

theorem rank_total_and_empty:
  "output (inputIAData localeCompare (Some ai) text p) = Some (Summary (rank localeCompare ai)) \<and>
   publicAPI (inputIAData localeCompare (Some ai) text p) = publicAPI p \<and>
   termFoundedInLastAnalysis (inputIAData localeCompare (Some ai) text p) =
     termFoundedInLastAnalysis p \<and>
   rank localeCompare (AiResult lang mood []) =
     \<lparr>idiom = lang, sentiment = mood, total_words = Finite 0, top_5_words = [],
      non_stopwords = [], stopwords = []\<rparr>"
  by (simp add: inputIAData_def rank_def array_sort_def slice_def)

section \<open>Properties of the store, the search and the routes\<close>

lemma string_includes_occurs: "string_includes text term \<Longrightarrow> occurs_in term text"
proof (induction "text")
  case Nil
  then show ?case by (simp add: occurs_in_def)
next
  case (Cons c cs)
  from Cons.prems consider
    (here) "take (length term) (c # cs) = term" | (later) "string_includes cs term"
    by auto
  then show ?case
  proof cases
    case here
    have "c # cs = [] @ take (length term) (c # cs) @ drop (length term) (c # cs)"
      by (simp only: append_Nil append_take_drop_id)
    with here show ?thesis unfolding occurs_in_def by metis
  next
    case later
    with Cons.IH obtain before after where "cs = before @ term @ after"
      unfolding occurs_in_def by blast
    then have "c # cs = (c # before) @ term @ after" by simp
    then show ?thesis unfolding occurs_in_def by blast
  qed
qed

lemma string_includes_append: "string_includes (before @ term @ after) term"
proof (induction before)
  case Nil
  show ?case
  proof (cases "term @ after")
    case Nil
    then show ?thesis by simp
  next
    case (Cons a list)
    have "take (length term) (term @ after) = term" by simp
    then have "take (length term) (a # list) = term" unfolding Cons .
    then show ?thesis unfolding append_Nil Cons by simp
  qed
next
  case (Cons b bs)
  then show ?case by simp
qed

lemma string_includes_iff: "string_includes text term = occurs_in term text"
  using string_includes_occurs [of "text" "term"] string_includes_append [of _ "term"]
  unfolding occurs_in_def by blast

lemma save_no_fault:
  "saveLastAnalysis NoFault NoFault text w =
     w\<lparr>last_analysis := [\<lparr>row_id = Suc (sqlite_sequence w), row_text = text\<rparr>],
       sqlite_sequence := Suc (sqlite_sequence w)\<rparr>"
  by (simp add: saveLastAnalysis_def dbRun_DELETE_def dbRun_INSERT_def next_id_def)

lemma search_single_row:
  "last_analysis w = [\<lparr>row_id = i, row_text = text\<rparr>] \<Longrightarrow>
   termFoundedInLastAnalysis (fst (searchTerm NoFault term p w)) = string_includes text term"
  by (simp add: searchTerm_def dbGet_SELECT_def)

lemma search_after_save:
  "termFoundedInLastAnalysis (fst (searchTerm NoFault term p (saveLastAnalysis NoFault NoFault text w))) =
     string_includes text term"
  by (simp add: save_no_fault search_single_row)

text \<open>
  Claim C6. A save whose two statements complete leaves exactly one row, holding the new
  text under a fresh id, whatever the table held before: the rows are deleted without
  any test and the text is inserted, never written over an old row. No save, failed or
  not, leaves more rows than one or than there were. After saving \<open>''Hello World''\<close>
  and then \<open>''Second text''\<close>, a search for \<open>''Hello''\<close> finds nothing and a search
  for \<open>''Second''\<close> succeeds.
\<close>

theorem save_replaces_the_single_row:
  "map row_text (last_analysis (saveLastAnalysis NoFault NoFault text w)) = [text] \<and>
   map row_id (last_analysis (saveLastAnalysis NoFault NoFault text w)) = [Suc (sqlite_sequence w)] \<and>
   length (last_analysis (saveLastAnalysis fdelete finsert text w)) \<le> max 1 (length (last_analysis w)) \<and>
   termFoundedInLastAnalysis (fst (searchTerm NoFault ''Hello'' p
      (saveLastAnalysis NoFault NoFault ''Second text''
        (saveLastAnalysis NoFault NoFault ''Hello World'' w)))) = False \<and>
   termFoundedInLastAnalysis (fst (searchTerm NoFault ''Second'' p
      (saveLastAnalysis NoFault NoFault ''Second text''
        (saveLastAnalysis NoFault NoFault ''Hello World'' w)))) = True"
proof -
  have a: "length (last_analysis (saveLastAnalysis fdelete finsert text w)) \<le> max 1 (length (last_analysis w))"
    by (cases fdelete; cases finsert)
       (simp_all add: saveLastAnalysis_def dbRun_DELETE_def dbRun_INSERT_def)
  have b: "string_includes ''Second text'' ''Hello'' = False" by simp
  have c: "string_includes ''Second text'' ''Second'' = True" by simp
  show ?thesis
    using a b c by (simp add: search_after_save) (simp add: save_no_fault)
qed

text \<open>
  Claim C7. With the stored text read, the search answers true exactly when the term
  occurs in the text as a contiguous run of the same characters; nothing is trimmed,
  folded or split into words. Against \<open>''Hello World''\<close> the term \<open>''World''\<close> is found and
  \<open>''world''\<close> is not.
\<close>

theorem search_is_exact_substring:
  "string_includes text term = occurs_in term text \<and>
   termFoundedInLastAnalysis (fst (searchTerm NoFault term p
      (w\<lparr>last_analysis := [\<lparr>row_id = i, row_text = text\<rparr>]\<rparr>))) = occurs_in term text \<and>
   termFoundedInLastAnalysis (fst (searchTerm NoFault term p
      (saveLastAnalysis NoFault NoFault text w))) = occurs_in term text \<and>
   termFoundedInLastAnalysis (fst (searchTerm NoFault ''World'' p
      (saveLastAnalysis NoFault NoFault ''Hello World'' w))) = True \<and>
   termFoundedInLastAnalysis (fst (searchTerm NoFault ''world'' p
      (saveLastAnalysis NoFault NoFault ''Hello World'' w))) = False"
proof -
  have a: "string_includes ''Hello World'' ''World'' = True" by simp
  have b: "string_includes ''Hello World'' ''world'' = False" by simp
  show ?thesis
    using a b by (simp add: search_after_save search_single_row string_includes_iff [symmetric])
qed

text \<open>
  Claim C8. The search hands no error to its caller. A failed read gives the answer
  false and only the console shows the error; an empty table gives false as well; the
  route then answers with status 200 and the same body in both cases.
\<close>

theorem search_never_fails:
  "termFoundedInLastAnalysis (fst (searchTerm (Fault msg) term p w)) = False \<and>
   console (snd (searchTerm (Fault msg) term p w)) =
     console w @ [LogError ''Error searching term:'' msg] \<and>
   last_analysis (snd (searchTerm f term p w)) = last_analysis w \<and>
   termFoundedInLastAnalysis (fst (searchTerm f term p (w\<lparr>last_analysis := []\<rparr>))) = False \<and>
   fst (search_term_route apiKey (Fault msg) (Some (c # cs)) w) =
     \<lparr>status = 200,
      body = JObject [(''term'', JString (c # cs)), (''termFoundedInLastAnalysis'', JBool False)]\<rparr> \<and>
   fst (search_term_route apiKey (Fault msg) (Some (c # cs)) w) =
     fst (search_term_route apiKey NoFault (Some (c # cs)) (w\<lparr>last_analysis := []\<rparr>))"
  by (cases f) (simp_all add: searchTerm_def dbGet_SELECT_def search_term_route_def new_TextProcessor_def
        split: list.splits)

text \<open>
  Claim C9, as stated, fails: the body of the search response has the keys \<open>term\<close> and
  \<open>termFoundedInLastAnalysis\<close>; there is no key \<open>found\<close>.
\<close>

theorem search_response_key_counterexample:
  "body (fst (search_term_route ''key'' NoFault (Some ''World'')
      \<lparr>last_analysis = [\<lparr>row_id = 1, row_text = ''Hello World''\<rparr>],
       sqlite_sequence = 1, console = []\<rparr>)) \<noteq>
     JObject [(''term'', JString ''World''), (''found'', JBool True)] \<and>
   object_keys (body (fst (search_term_route ''key'' NoFault (Some ''World'')
      \<lparr>last_analysis = [\<lparr>row_id = 1, row_text = ''Hello World''\<rparr>],
       sqlite_sequence = 1, console = []\<rparr>))) = [''term'', ''termFoundedInLastAnalysis'']"
  by (simp add: search_term_route_def searchTerm_def dbGet_SELECT_def new_TextProcessor_def)

text \<open>
  Claim C9, amended. For every request with a term that is not empty the response has
  status 200 and the body \<^verbatim>\<open>{ term, termFoundedInLastAnalysis }\<close>, where the second field is
  the boolean that the search has computed: on a table whose row has been read, whether
  the term occurs in the stored text.
\<close>

theorem search_response_shape:
  "fst (search_term_route apiKey f (Some (c # cs)) w) =
     \<lparr>status = 200,
      body = JObject [(''term'', JString (c # cs)),
                      (''termFoundedInLastAnalysis'',
                       JBool (termFoundedInLastAnalysis
                                (fst (searchTerm f (c # cs) (new_TextProcessor apiKey) w))))]\<rparr> \<and>
   fst (search_term_route apiKey NoFault (Some (c # cs))
          (w\<lparr>last_analysis := [\<lparr>row_id = i, row_text = text\<rparr>]\<rparr>)) =
     \<lparr>status = 200,
      body = JObject [(''term'', JString (c # cs)),
                      (''termFoundedInLastAnalysis'', JBool (occurs_in (c # cs) text))]\<rparr>"
proof -
  have a: "fst (search_term_route apiKey f (Some (c # cs)) w) =
     \<lparr>status = 200,
      body = JObject [(''term'', JString (c # cs)),
                      (''termFoundedInLastAnalysis'',
                       JBool (termFoundedInLastAnalysis
                                (fst (searchTerm f (c # cs) (new_TextProcessor apiKey) w))))]\<rparr>" for f w
    by (simp add: search_term_route_def split: prod.splits)
  show ?thesis
    unfolding a by (simp add: search_single_row string_includes_iff)
qed

lemma trim_Nil: "trim [] = []"
  by (simp add: trim_def)

text \<open>
  Claim C10. When the call of the model fails, the route answers with the error object
  only and the submitted text still replaces the stored one, so that a later search is
  matched against the text whose analysis failed.
\<close>

theorem failed_analysis_still_saved:
  assumes "trim t \<noteq> []"
  shows "fst (analyze_text_route apiKey localeCompare None NoFault NoFault (Some t) w) =
           \<lparr>status = 200,
            body = JObject [(''error'', JString ''Error retrieving analysis from AI'')]\<rparr> \<and>
         map row_text (last_analysis
           (snd (analyze_text_route apiKey localeCompare None NoFault NoFault (Some t) w))) = [t] \<and>
         termFoundedInLastAnalysis (fst (searchTerm NoFault term p
           (snd (analyze_text_route apiKey localeCompare None NoFault NoFault (Some t) w)))) =
           occurs_in term t"
proof -
  from assms have ne: "t \<noteq> []" using trim_Nil by auto
  have r: "analyze_text_route apiKey localeCompare None NoFault NoFault (Some t) w =
     (\<lparr>status = 200, body = JObject [(''error'', JString ''Error retrieving analysis from AI'')]\<rparr>,
      saveLastAnalysis NoFault NoFault t w)"
    using assms ne
    by (simp add: analyze_text_route_def inputIAData_def outputData_def new_TextProcessor_def Let_def)
  show ?thesis
    unfolding r by (simp add: search_after_save string_includes_iff) (simp add: save_no_fault)
qed

theorem failed_analysis_still_saved_witness:
  "trim ''Hello World'' \<noteq> [] \<and>
   fst (analyze_text_route ''key'' ordinalCompare None NoFault NoFault (Some ''Hello World'')
          \<lparr>last_analysis = [], sqlite_sequence = 0, console = []\<rparr>) =
     \<lparr>status = 200,
      body = JObject [(''error'', JString ''Error retrieving analysis from AI'')]\<rparr> \<and>
   map row_text (last_analysis
     (snd (analyze_text_route ''key'' ordinalCompare None NoFault NoFault (Some ''Hello World'')
          \<lparr>last_analysis = [], sqlite_sequence = 0, console = []\<rparr>))) = [''Hello World''] \<and>
   termFoundedInLastAnalysis (fst (searchTerm NoFault ''World'' (new_TextProcessor ''key'')
     (snd (analyze_text_route ''key'' ordinalCompare None NoFault NoFault (Some ''Hello World'')
          \<lparr>last_analysis = [], sqlite_sequence = 0, console = []\<rparr>)))) = True"
proof -
  have h: "trim ''Hello World'' \<noteq> []"
    by (simp add: trim_def isWhiteSpace_def)
  have o: "occurs_in ''World'' ''Hello World''"
    unfolding string_includes_iff [symmetric] by simp
  from failed_analysis_still_saved [OF h, of "''key''" ordinalCompare
      "\<lparr>last_analysis = [], sqlite_sequence = 0, console = []\<rparr>" "''World''" "new_TextProcessor ''key''"] h o
  show ?thesis by simp
qed

end
